theory Spec2Isabelle
  imports Main "HOL-Library.Log_Nat"
begin

section \<open>A pedagogical RSA implementation: the model\<close>

text \<open>
  The program is a single Python module: a prime finder (\<open>get_primes\<close>), a coprimality
  checker (\<open>are_relatively_prime\<close>), a key-pair generator (\<open>make_key_pair\<close>) and two
  immutable key types with \<open>encrypt\<close> and \<open>decrypt\<close>. Python integers are unbounded, so
  they are modelled by \<^typ>\<open>int\<close>; Python's \<open>%\<close> and \<open>//\<close> round towards minus
  infinity, exactly as \<open>mod\<close> and \<open>div\<close> on \<^typ>\<open>int\<close> do.

  Every loop that counts over integers or runs while a condition holds is a
  \<^theory_text>\<open>partial_function\<close> in the option monad: \<open>None\<close> is the value of a loop that
  never returns, so that termination is a theorem about the model and not a property
  of the way the model is written. Only the inner loop over an existing list is a
  structural recursion.
\<close>

subsection \<open>Exceptions\<close>

text \<open>
  The module raises \<open>ValueError\<close> (the specification's \<open>InvalidParameter\<close>) and
  \<open>AssertionError\<close> (the specification's \<open>GenerationExhausted\<close>). The built-in
  three-argument \<open>pow\<close> raises \<open>ValueError\<close> as well.
\<close>

datatype error = ValueError | AssertionError

subsection \<open>The prime finder\<close>

text \<open>
  The inner loop \<^verbatim>\<open>for p in primes: if n % p == 0: break\<close>, with an \<open>else\<close> branch
  that runs when the loop was not left by \<open>break\<close>. \<open>has_divisor n primes\<close> is \<open>True\<close> when
  the loop breaks. Every \<open>p\<close> comes from the list of primes found so far, whose elements
  are primes (lemma \<open>sieve_loop_eq\<close>), so \<open>%\<close> never divides by zero.
\<close>

fun has_divisor :: "int \<Rightarrow> int list \<Rightarrow> bool" where
  "has_divisor n [] = False"
| "has_divisor n (p # ps) = (if n mod p = 0 then True else has_divisor n ps)"

text \<open>
  The outer loop \<^verbatim>\<open>for n in range(3, stop + 1, 2)\<close>: \<open>n\<close> is the current candidate, and the
  loop goes on while \<open>n < stop + 1\<close>.
\<close>

partial_function (option) sieve_loop :: "int \<Rightarrow> int \<Rightarrow> int list \<Rightarrow> int list option" where
  "sieve_loop n stop primes =
     (if n < stop + 1
      then sieve_loop (n + 2) stop (if has_divisor n primes then primes else primes @ [n])
      else Some primes)"

text \<open>The loop \<^verbatim>\<open>while primes and primes[0] < start: del primes[0]\<close>.\<close>

partial_function (option) trim_front :: "int \<Rightarrow> int list \<Rightarrow> int list option" where
  "trim_front start primes =
     (if primes \<noteq> [] \<and> hd primes < start then trim_front start (tl primes) else Some primes)"

definition get_primes :: "int \<Rightarrow> int \<Rightarrow> int list option" where
  "get_primes start stop =
     (if start \<ge> stop then Some []
      else case sieve_loop 3 stop [2] of
             None \<Rightarrow> None
           | Some primes \<Rightarrow> trim_front start primes)"

subsection \<open>The coprimality checker\<close>

text \<open>
  The loop \<^verbatim>\<open>for n in range(2, min(a, b) + 1)\<close>; \<open>hi\<close> is the bound \<open>min(a, b) + 1\<close>. The
  chained comparison \<^verbatim>\<open>a % n == b % n == 0\<close> is the conjunction of its two links. The
  divisor \<open>n\<close> is at least 2.
\<close>

partial_function (option) coprime_scan :: "int \<Rightarrow> int \<Rightarrow> int \<Rightarrow> int \<Rightarrow> bool option" where
  "coprime_scan n hi a b =
     (if n < hi
      then (if a mod n = b mod n \<and> b mod n = 0 then Some False
            else coprime_scan (n + 1) hi a b)
      else Some True)"

definition are_relatively_prime :: "int \<Rightarrow> int \<Rightarrow> bool option" where
  "are_relatively_prime a b = coprime_scan 2 (min a b + 1) a b"

subsection \<open>The key types\<close>

text \<open>
  The two named tuples. The built-in \<open>pow(x, e, n)\<close> raises \<open>ValueError\<close> when the modulus
  is zero, returns 0 when the modulus is 1 or -1, and for a negative exponent (Python 3.8
  and later) replaces the base by its inverse modulo \<open>\<bar>n\<bar>\<close>, raising \<open>ValueError\<close> when
  there is none. The result has the sign of the modulus, as \<open>mod\<close> has.
\<close>

datatype PublicKey = PublicKey (pub_n: int) (pub_e: int)

datatype PrivateKey = PrivateKey (priv_n: int) (priv_d: int)

definition invmod :: "int \<Rightarrow> int \<Rightarrow> int option" where
  "invmod x m = List.find (\<lambda>y. x * y mod m = 1) [0..m - 1]"

definition pow3 :: "int \<Rightarrow> int \<Rightarrow> int \<Rightarrow> error + int" where
  "pow3 x e n =
     (if n = 0 then Inl ValueError
      else if \<bar>n\<bar> = 1 then Inr 0
      else if e < 0 then
        (case invmod x \<bar>n\<bar> of
           None \<Rightarrow> Inl ValueError
         | Some y \<Rightarrow> Inr (y ^ nat (- e) mod n))
      else Inr (x ^ nat e mod n))"

definition encrypt :: "PublicKey \<Rightarrow> int \<Rightarrow> error + int" where
  "encrypt key x = pow3 x (pub_e key) (pub_n key)"

definition decrypt :: "PrivateKey \<Rightarrow> int \<Rightarrow> error + int" where
  "decrypt key x = pow3 x (priv_d key) (priv_n key)"

subsection \<open>The key-pair generator\<close>

text \<open>
  \<open>random.choice\<close> returns the element at an index drawn below the length of a non-empty
  sequence. The random source is a tape \<open>rnd\<close> of natural numbers, read at a position that
  moves by one with every call; the index is the number read, reduced modulo the length,
  so that every outcome of \<open>random.choice\<close> is the outcome for some tape and conversely.
  The generator calls it on non-empty lists only.
\<close>

definition choice :: "nat \<Rightarrow> 'a list \<Rightarrow> 'a" where
  "choice r xs = xs ! (r mod length xs)"

text \<open>
  Step one, \<^verbatim>\<open>while primes: ... else: raise AssertionError\<close>. \<open>primes.remove(p)\<close> deletes
  the first occurrence of \<open>p\<close>, which is in the list.
\<close>

partial_function (option) pick_pq ::
  "(nat \<Rightarrow> nat) \<Rightarrow> nat \<Rightarrow> int \<Rightarrow> int \<Rightarrow> int list \<Rightarrow> (error + int \<times> int) option" where
  "pick_pq rnd i n_min n_max primes =
     (if primes \<noteq> [] then
        (let p = choice (rnd i) primes;
             primes' = remove1 p primes;
             q_candidates = filter (\<lambda>q. n_min \<le> p * q \<and> p * q \<le> n_max) primes'
         in if q_candidates \<noteq> []
            then Some (Inr (p, choice (rnd (i + 1)) q_candidates))
            else pick_pq rnd (i + 1) n_min n_max primes')
      else Some (Inl AssertionError))"

text \<open>Step two, \<^verbatim>\<open>for e in range(3, stop, 2): if are_relatively_prime(e, stop): break\<close>.\<close>

partial_function (option) find_e :: "int \<Rightarrow> int \<Rightarrow> (error + int) option" where
  "find_e e stop =
     (if e < stop
      then (case are_relatively_prime e stop of
              None \<Rightarrow> None
            | Some r \<Rightarrow> if r then Some (Inr e) else find_e (e + 2) stop)
      else Some (Inl AssertionError))"

text \<open>
  Step three, \<^verbatim>\<open>for d in range(3, stop, 2): if d * e % stop == 1: break\<close>. The body runs
  only when \<open>3 \<le> d < stop\<close>, so \<open>stop\<close> is not zero there.
\<close>

partial_function (option) find_d :: "int \<Rightarrow> int \<Rightarrow> int \<Rightarrow> (error + int) option" where
  "find_d d stop e =
     (if d < stop
      then (if d * e mod stop = 1 then Some (Inr d) else find_d (d + 2) stop e)
      else Some (Inl AssertionError))"

text \<open>
  \<open>make_key_pair\<close>; its argument \<open>length\<close> is written \<open>len\<close>. The shifts \<^verbatim>\<open>1 << k\<close> are
  taken after the check that \<open>len\<close> is at least 4, so every shift count is positive and
  the shift is the power \<open>2 ^ k\<close>.
\<close>

definition make_key_pair ::
  "(nat \<Rightarrow> nat) \<Rightarrow> int \<Rightarrow> (error + PublicKey \<times> PrivateKey) option" where
  "make_key_pair rnd len =
     (if len < 4 then Some (Inl ValueError)
      else
        let n_min = 2 ^ nat (len - 1);
            n_max = 2 ^ nat len - 1;
            start = 2 ^ nat (len div 2 - 1);
            stop = 2 ^ nat (len div 2 + 1)
        in case get_primes start stop of
             None \<Rightarrow> None
           | Some primes \<Rightarrow>
              (case pick_pq rnd 0 n_min n_max primes of
                 None \<Rightarrow> None
               | Some (Inl err) \<Rightarrow> Some (Inl err)
               | Some (Inr (p, q)) \<Rightarrow>
                  (let stop = (p - 1) * (q - 1)
                   in case find_e 3 stop of
                        None \<Rightarrow> None
                      | Some (Inl err) \<Rightarrow> Some (Inl err)
                      | Some (Inr e) \<Rightarrow>
                         (case find_d 3 stop e of
                            None \<Rightarrow> None
                          | Some (Inl err) \<Rightarrow> Some (Inl err)
                          | Some (Inr d) \<Rightarrow>
                              Some (Inr (PublicKey (p * q) e, PrivateKey (p * q) d))))))"

declare sieve_loop.simps [code] trim_front.simps [code] coprime_scan.simps [code]
declare pick_pq.simps [code] find_e.simps [code] find_d.simps [code]

subsection \<open>Notions used to state the properties\<close>

text \<open>Primality of an integer, decided by the divisors between 2 and \<open>p - 1\<close>.\<close>

definition is_prime :: "int \<Rightarrow> bool" where
  "is_prime p \<longleftrightarrow> 1 < p \<and> (\<forall>m \<in> set [2..p - 1]. \<not> m dvd p)"

text \<open>The ascending list of the primes between \<open>lo\<close> and \<open>hi\<close>, both included.\<close>

definition primes_between :: "int \<Rightarrow> int \<Rightarrow> int list" where
  "primes_between lo hi = filter is_prime [lo..hi]"

text \<open>
  Square-and-multiply exponentiation, used to evaluate \<open>pow\<close> at large exponents; lemma
  \<open>mod_exp_eq\<close> shows that it computes the power reduced by the modulus.
\<close>

function mod_exp :: "int \<Rightarrow> int \<Rightarrow> int \<Rightarrow> int" where
  "mod_exp x k n =
     (if k \<le> 0 then 1 mod n
      else (let h = mod_exp x (k div 2) n
            in if k mod 2 = 0 then h * h mod n else h * h * x mod n))"
  by pat_completeness auto
termination
  by (relation "measure (\<lambda>(x, k, n). nat k)") auto

declare mod_exp.simps [simp del]

section \<open>The coprimality checker\<close>

text \<open>
  The scan from \<open>n\<close> returns, and its result says whether no number between \<open>n\<close> and
  the bound divides both arguments. The induction is on the distance to the bound.
\<close>

lemma coprime_scan_eq:
  "coprime_scan n hi a b = Some (\<forall>m. n \<le> m \<and> m < hi \<longrightarrow> \<not> (m dvd a \<and> m dvd b))"
proof (induction "nat (hi - n)" arbitrary: n rule: less_induct)
  case less
  show ?case
  proof (cases "n < hi")
    case False
    then have "coprime_scan n hi a b = Some True"
      by (subst coprime_scan.simps) simp
    with False show ?thesis by auto
  next
    case True
    show ?thesis
    proof (cases "a mod n = b mod n \<and> b mod n = 0")
      case hit: True
      then have "n dvd a \<and> n dvd b" by (metis mod_0_imp_dvd)
      moreover have "coprime_scan n hi a b = Some False"
        using True hit by (subst coprime_scan.simps) simp
      ultimately show ?thesis using True by auto
    next
      case miss: False
      then have nd: "\<not> (n dvd a \<and> n dvd b)" by auto
      have "nat (hi - (n + 1)) < nat (hi - n)" using True by simp
      from less[OF this]
      have ih: "coprime_scan (n + 1) hi a b =
              Some (\<forall>m. n + 1 \<le> m \<and> m < hi \<longrightarrow> \<not> (m dvd a \<and> m dvd b))" .
      have step: "coprime_scan n hi a b = coprime_scan (n + 1) hi a b"
        by (subst coprime_scan.simps) (use True miss in auto)
      have "(\<forall>m. n + 1 \<le> m \<and> m < hi \<longrightarrow> \<not> (m dvd a \<and> m dvd b)) \<longleftrightarrow>
            (\<forall>m. n \<le> m \<and> m < hi \<longrightarrow> \<not> (m dvd a \<and> m dvd b))"
      proof (intro iffI allI impI)
        fix m
        assume h: "\<forall>m. n + 1 \<le> m \<and> m < hi \<longrightarrow> \<not> (m dvd a \<and> m dvd b)"
          and m: "n \<le> m \<and> m < hi"
        show "\<not> (m dvd a \<and> m dvd b)"
        proof (cases "m = n")
          case True
          with nd show ?thesis by simp
        next
          case False
          with m have "n + 1 \<le> m \<and> m < hi" by simp
          with h show ?thesis by blast
        qed
      next
        fix m
        assume h: "\<forall>m. n \<le> m \<and> m < hi \<longrightarrow> \<not> (m dvd a \<and> m dvd b)"
          and m: "n + 1 \<le> m \<and> m < hi"
        then have "n \<le> m \<and> m < hi" by simp
        with h show "\<not> (m dvd a \<and> m dvd b)" by blast
      qed
      with ih step show ?thesis by simp
    qed
  qed
qed

lemma are_relatively_prime_eq:
  "are_relatively_prime a b = Some (\<forall>m. 2 \<le> m \<and> m \<le> min a b \<longrightarrow> \<not> (m dvd a \<and> m dvd b))"
  unfolding are_relatively_prime_def coprime_scan_eq by (simp add: zle_add1_eq_le)

lemma no_common_divisor_gcd:
  assumes "0 < a" "0 < b"
  shows "(\<forall>m. 2 \<le> m \<and> m \<le> min a b \<longrightarrow> \<not> (m dvd a \<and> m dvd b)) \<longleftrightarrow> gcd a b = (1::int)"
proof
  assume h: "\<forall>m. 2 \<le> m \<and> m \<le> min a b \<longrightarrow> \<not> (m dvd a \<and> m dvd b)"
  define g where "g = gcd a b"
  have ga: "g dvd a" and gb: "g dvd b" by (simp_all add: g_def)
  have gpos: "0 < g" using assms by (simp add: g_def)
  have "g \<le> a" using ga assms(1) by (rule zdvd_imp_le)
  moreover have "g \<le> b" using gb assms(2) by (rule zdvd_imp_le)
  ultimately have "g \<le> min a b" by simp
  with h ga gb have "\<not> 2 \<le> g" by blast
  with gpos have "g = 1" by linarith
  then show "gcd a b = 1" by (simp add: g_def)
next
  assume g: "gcd a b = 1"
  show "\<forall>m. 2 \<le> m \<and> m \<le> min a b \<longrightarrow> \<not> (m dvd a \<and> m dvd b)"
  proof (intro allI impI notI)
    fix m assume m: "2 \<le> m \<and> m \<le> min a b" and d: "m dvd a \<and> m dvd b"
    from d have "m dvd gcd a b" by simp
    with g have "m dvd 1" by simp
    then have "\<bar>m\<bar> = 1" by simp
    with m show False by linarith
  qed
qed

text \<open>
  Claim C7. For all integers \<open>a\<close> and \<open>b\<close>, \<open>are_relatively_prime a b\<close> returns \<open>False\<close>
  exactly when some \<open>n\<close> with \<open>2 \<le> n \<le> min a b\<close> divides both with zero remainder, and
  \<open>True\<close> otherwise; for positive \<open>a\<close> and \<open>b\<close> the result is \<open>gcd a b = 1\<close>.
\<close>

theorem are_relatively_prime_contract:
  "(are_relatively_prime a b = Some False \<longleftrightarrow>
      (\<exists>n. 2 \<le> n \<and> n \<le> min a b \<and> a mod n = 0 \<and> b mod n = 0)) \<and>
   (are_relatively_prime a b = Some True \<longleftrightarrow>
      \<not> (\<exists>n. 2 \<le> n \<and> n \<le> min a b \<and> a mod n = 0 \<and> b mod n = 0)) \<and>
   (0 < a \<and> 0 < b \<longrightarrow> are_relatively_prime a b = Some (gcd a b = 1))"
proof (intro conjI)
  have "(\<forall>m. 2 \<le> m \<and> m \<le> min a b \<longrightarrow> \<not> (m dvd a \<and> m dvd b)) \<longleftrightarrow>
        \<not> (\<exists>n. 2 \<le> n \<and> n \<le> min a b \<and> a mod n = 0 \<and> b mod n = 0)"
    unfolding mod_eq_0_iff_dvd by blast
  then have eq: "are_relatively_prime a b =
          Some (\<not> (\<exists>n. 2 \<le> n \<and> n \<le> min a b \<and> a mod n = 0 \<and> b mod n = 0))"
    unfolding are_relatively_prime_eq by (rule arg_cong)
  show "are_relatively_prime a b = Some False \<longleftrightarrow>
      (\<exists>n. 2 \<le> n \<and> n \<le> min a b \<and> a mod n = 0 \<and> b mod n = 0)"
    by (simp only: eq option.inject simp_thms)
  show "are_relatively_prime a b = Some True \<longleftrightarrow>
      \<not> (\<exists>n. 2 \<le> n \<and> n \<le> min a b \<and> a mod n = 0 \<and> b mod n = 0)"
    by (simp only: eq option.inject simp_thms)
  show "0 < a \<and> 0 < b \<longrightarrow> are_relatively_prime a b = Some (gcd a b = 1)"
  proof
    assume "0 < a \<and> 0 < b"
    then have pa: "0 < a" and pb: "0 < b" by simp_all
    have "(\<forall>m. 2 \<le> m \<and> m \<le> min a b \<longrightarrow> \<not> (m dvd a \<and> m dvd b)) \<longleftrightarrow> gcd a b = 1"
      using pa pb by (rule no_common_divisor_gcd)
    then show "are_relatively_prime a b = Some (gcd a b = 1)"
      unfolding are_relatively_prime_eq by (rule arg_cong)
  qed
qed

theorem are_relatively_prime_contract_witness:
  "are_relatively_prime 4 6 = Some False \<and> (2::int) \<le> 2 \<and> (2::int) \<le> min 4 6 \<and>
   (4::int) mod 2 = 0 \<and> (6::int) mod 2 = 0 \<and>
   are_relatively_prime 3 4 = Some True \<and> (0::int) < 3 \<and> (0::int) < 4 \<and> gcd (3::int) 4 = 1"
proof -
  have "\<exists>n::int. 2 \<le> n \<and> n \<le> min 4 6 \<and> 4 mod n = 0 \<and> 6 mod n = 0"
    by (rule exI[of _ 2]) simp
  moreover have "are_relatively_prime 4 6 = Some False \<longleftrightarrow>
      (\<exists>n::int. 2 \<le> n \<and> n \<le> min 4 6 \<and> 4 mod n = 0 \<and> 6 mod n = 0)"
    using are_relatively_prime_contract[of 4 6] by (rule conjunct1)
  ultimately have c1: "are_relatively_prime 4 6 = Some False" by (rule rev_iffD2)
  have g: "gcd (3::int) 4 = 1" by code_simp
  have "(0::int) < 3 \<and> (0::int) < 4 \<longrightarrow> are_relatively_prime 3 4 = Some (gcd (3::int) 4 = 1)"
    using are_relatively_prime_contract[of 3 4] by (rule conjunct2[OF conjunct2])
  with g have c2: "are_relatively_prime 3 4 = Some True" by simp
  from c1 c2 g show ?thesis by simp
qed

text \<open>
  Claim C8 says that the checker returns \<open>False\<close> whenever \<open>min a b\<close> is 0 or 1. The scan
  starts at 2, so for \<open>min a b = 1\<close> it is empty and the result is \<open>True\<close>: the pair
  \<open>(1, 5)\<close> refutes the claim as stated.
\<close>

theorem are_relatively_prime_min_1_counterexample:
  "min (1::int) 5 = 1 \<and> are_relatively_prime 1 5 \<noteq> Some False"
  by (auto simp: are_relatively_prime_eq)

text \<open>
  Claim C8, amended: whenever \<open>min a b = 1\<close>, \<open>are_relatively_prime a b\<close> returns \<open>True\<close>.
\<close>

theorem are_relatively_prime_min_1:
  "min a b = 1 \<Longrightarrow> are_relatively_prime a b = Some True"
  by (auto simp: are_relatively_prime_eq)

theorem are_relatively_prime_min_1_witness:
  "min (1::int) 5 = 1 \<and> are_relatively_prime 1 5 = Some True"
  using are_relatively_prime_min_1[of 1 5] by simp

section \<open>Modular exponentiation\<close>

lemma mod_exp_eq: "0 \<le> k \<Longrightarrow> mod_exp x k n = x ^ nat k mod n"
proof (induction x k n rule: mod_exp.induct)
  case (1 x k n)
  show ?case
  proof (cases "k \<le> 0")
    case True
    with 1(2) have "k = 0" by simp
    then show ?thesis by (subst mod_exp.simps) simp
  next
    case False
    then have kpos: "0 < k" by simp
    define h where "h = k div 2"
    have h0: "0 \<le> h" using kpos by (simp add: h_def)
    have ih: "mod_exp x h n = x ^ nat h mod n"
      using 1(1)[OF False] h0 by (simp add: h_def)
    have unfold: "mod_exp x k n =
        (if k mod 2 = 0 then mod_exp x h n * mod_exp x h n mod n
         else mod_exp x h n * mod_exp x h n * x mod n)"
      using False by (subst mod_exp.simps) (simp add: h_def Let_def)
    show ?thesis
    proof (cases "k mod 2 = 0")
      case True
      then have "k = 2 * h" by (simp add: h_def) presburger
      then have "nat k = nat h + nat h" using h0 by simp
      then have "x ^ nat k = x ^ nat h * x ^ nat h" by (simp add: power_add)
      then have "x ^ nat k mod n = (x ^ nat h mod n) * (x ^ nat h mod n) mod n"
        by (simp add: mod_mult_eq)
      with unfold ih True show ?thesis by simp
    next
      case False
      then have "k = 2 * h + 1" by (simp add: h_def) presburger
      then have "nat k = nat h + nat h + 1" using h0 by simp
      then have "x ^ nat k = x ^ nat h * x ^ nat h * x" by (simp add: power_add)
      then have "x ^ nat k mod n = (x ^ nat h mod n) * (x ^ nat h mod n) * x mod n"
        by (metis mod_mult_eq mod_mult_left_eq)
      with unfold ih False show ?thesis by simp
    qed
  qed
qed

lemma pow3_mod_exp:
  "n \<noteq> 0 \<Longrightarrow> \<bar>n\<bar> \<noteq> 1 \<Longrightarrow> 0 \<le> e \<Longrightarrow> pow3 x e n = Inr (mod_exp x e n)"
  by (simp add: pow3_def mod_exp_eq)


lemma vec1: "mod_exp 123 7 2534665157 = 2463995467" by code_simp
lemma vec2: "mod_exp 2463995467 1810402843 2534665157 = 123" by code_simp
lemma vec3: "mod_exp 456 7 2534665157 = 2022084991" by code_simp
lemma vec4: "mod_exp 2022084991 1810402843 2534665157 = 456" by code_simp
lemma vec5: "mod_exp 123456 7 2534665157 = 1299565302" by code_simp
lemma vec6: "mod_exp 1299565302 1810402843 2534665157 = 123456" by code_simp

text \<open>
  Claim C4. With the fixed key pair \<open>n = 2534665157\<close>, \<open>e = 7\<close>, \<open>d = 1810402843\<close> of the
  module's self-test, the three known plaintexts encrypt to the three known ciphertexts
  and these decrypt to the plaintexts.
\<close>

theorem known_vectors:
  "encrypt (PublicKey 2534665157 7) 123 = Inr 2463995467 \<and>
   decrypt (PrivateKey 2534665157 1810402843) 2463995467 = Inr 123 \<and>
   encrypt (PublicKey 2534665157 7) 456 = Inr 2022084991 \<and>
   decrypt (PrivateKey 2534665157 1810402843) 2022084991 = Inr 456 \<and>
   encrypt (PublicKey 2534665157 7) 123456 = Inr 1299565302 \<and>
   decrypt (PrivateKey 2534665157 1810402843) 1299565302 = Inr 123456"
  by (simp add: encrypt_def decrypt_def pow3_mod_exp vec1 vec2 vec3 vec4 vec5 vec6)

lemma pow3_pos:
  assumes "0 < n" "0 \<le> e"
  shows "pow3 x e n = Inr (x ^ nat e mod n)"
proof (cases "n = 1")
  case True
  then show ?thesis by (simp add: pow3_def)
next
  case False
  with assms show ?thesis by (simp add: pow3_def)
qed

lemma pow3_props:
  assumes n: "0 < n" and e: "0 < e" and odd: "odd e"
  shows "\<exists>y. pow3 x e n = Inr y \<and> 0 \<le> y \<and> y \<le> n - 1 \<and>
             (x mod n = 0 \<longrightarrow> y = 0) \<and> (x mod n = n - 1 \<longrightarrow> y = n - 1) \<and>
             pow3 (x mod n) e n = Inr y"
proof -
  define k where "k = nat e"
  have kpos: "0 < k" using e by (simp add: k_def)
  have kodd: "odd k" using e odd by (simp add: k_def even_nat_iff)
  define y where "y = x ^ k mod n"
  have p: "pow3 x e n = Inr y" using n e by (simp add: pow3_pos y_def k_def)
  have r: "pow3 (x mod n) e n = Inr y"
    using n e by (simp add: pow3_pos y_def k_def power_mod)
  have lo: "0 \<le> y" using n by (simp add: y_def)
  have "y < n" using n by (simp add: y_def)
  then have hi: "y \<le> n - 1" by simp
  have z: "x mod n = 0 \<longrightarrow> y = 0"
  proof
    assume "x mod n = 0"
    then have "n dvd x" by (rule mod_0_imp_dvd)
    moreover have "x dvd x ^ k" using kpos by (intro dvd_power) simp
    ultimately have "n dvd x ^ k" by (rule dvd_trans)
    then show "y = 0" by (simp add: y_def)
  qed
  have m: "x mod n = n - 1 \<longrightarrow> y = n - 1"
  proof
    assume a: "x mod n = n - 1"
    have m1: "(- 1) mod n = n - 1" using n by (simp add: zmod_minus1)
    have "x mod n = (- 1) mod n" using a m1 by simp
    then have "x ^ k mod n = (- 1) ^ k mod n" by (metis power_mod)
    also have "\<dots> = (- 1) mod n" using kodd by simp
    also have "\<dots> = n - 1" by (rule m1)
    finally show "y = n - 1" by (simp add: y_def)
  qed
  from p r lo hi z m show ?thesis by blast
qed


lemma pow3_at_modulus:
  assumes n: "0 < n" and e: "0 < e" and odd: "odd e"
  shows "pow3 n e n = Inr 0" and "pow3 (n - 1) e n = Inr (n - 1)"
proof -
  from pow3_props[OF n e odd, of n] show "pow3 n e n = Inr 0" by auto
  have r: "(n - 1) mod n = n - 1" using n by (intro mod_pos_pos_trivial) simp_all
  from pow3_props[OF n e odd, of "n - 1"] obtain y where
    y: "pow3 (n - 1) e n = Inr y" and i: "(n - 1) mod n = n - 1 \<longrightarrow> y = n - 1" by blast
  from i r have "y = n - 1" by (rule mp)
  with y show "pow3 (n - 1) e n = Inr (n - 1)" by simp
qed

text \<open>
  Claim C3. For a positive modulus \<open>n\<close> and odd positive exponents, as every valid key
  pair has, \<open>encrypt\<close> and \<open>decrypt\<close> return a value between 0 and \<open>n - 1\<close>; an input
  congruent to 0 modulo \<open>n\<close> (such as \<open>n\<close>) gives 0, an input congruent to \<open>n - 1\<close>
  (such as \<open>n - 1\<close>) gives \<open>n - 1\<close>, and any input gives the result of its residue modulo
  \<open>n\<close>.
\<close>

theorem encrypt_decrypt_boundary:
  assumes "0 < n" and "0 < e" and "odd e" and "0 < d" and "odd d"
  shows "(\<exists>y. encrypt (PublicKey n e) x = Inr y \<and> 0 \<le> y \<and> y \<le> n - 1 \<and>
              (x mod n = 0 \<longrightarrow> y = 0) \<and> (x mod n = n - 1 \<longrightarrow> y = n - 1) \<and>
              encrypt (PublicKey n e) (x mod n) = Inr y) \<and>
         (\<exists>z. decrypt (PrivateKey n d) x = Inr z \<and> 0 \<le> z \<and> z \<le> n - 1 \<and>
              (x mod n = 0 \<longrightarrow> z = 0) \<and> (x mod n = n - 1 \<longrightarrow> z = n - 1) \<and>
              decrypt (PrivateKey n d) (x mod n) = Inr z) \<and>
         encrypt (PublicKey n e) n = Inr 0 \<and>
         encrypt (PublicKey n e) (n - 1) = Inr (n - 1) \<and>
         decrypt (PrivateKey n d) n = Inr 0 \<and>
         decrypt (PrivateKey n d) (n - 1) = Inr (n - 1)"
proof (intro conjI)
  show "\<exists>y. encrypt (PublicKey n e) x = Inr y \<and> 0 \<le> y \<and> y \<le> n - 1 \<and>
              (x mod n = 0 \<longrightarrow> y = 0) \<and> (x mod n = n - 1 \<longrightarrow> y = n - 1) \<and>
              encrypt (PublicKey n e) (x mod n) = Inr y"
    unfolding encrypt_def PublicKey.sel using assms(1,2,3) by (rule pow3_props)
  show "\<exists>z. decrypt (PrivateKey n d) x = Inr z \<and> 0 \<le> z \<and> z \<le> n - 1 \<and>
              (x mod n = 0 \<longrightarrow> z = 0) \<and> (x mod n = n - 1 \<longrightarrow> z = n - 1) \<and>
              decrypt (PrivateKey n d) (x mod n) = Inr z"
    unfolding decrypt_def PrivateKey.sel using assms(1,4,5) by (rule pow3_props)
  show "encrypt (PublicKey n e) n = Inr 0"
    unfolding encrypt_def PublicKey.sel using assms(1,2,3) by (rule pow3_at_modulus)
  show "encrypt (PublicKey n e) (n - 1) = Inr (n - 1)"
    unfolding encrypt_def PublicKey.sel using assms(1,2,3) by (rule pow3_at_modulus)
  show "decrypt (PrivateKey n d) n = Inr 0"
    unfolding decrypt_def PrivateKey.sel using assms(1,4,5) by (rule pow3_at_modulus)
  show "decrypt (PrivateKey n d) (n - 1) = Inr (n - 1)"
    unfolding decrypt_def PrivateKey.sel using assms(1,4,5) by (rule pow3_at_modulus)
qed

theorem encrypt_decrypt_boundary_witness:
  "(0::int) < 10 \<and> (0::int) < 3 \<and> odd (3::int) \<and>
   encrypt (PublicKey 10 3) 10 = Inr 0 \<and> encrypt (PublicKey 10 3) 9 = Inr 9 \<and>
   decrypt (PrivateKey 10 3) 10 = Inr 0 \<and> decrypt (PrivateKey 10 3) 9 = Inr 9"
  using encrypt_decrypt_boundary[of 10 3 3 19] by simp

section \<open>The prime finder\<close>

text \<open>
  The invariant of the outer loop: when the candidate is the odd number \<open>n\<close>, the list
  holds exactly the primes below \<open>n\<close> in ascending order. A candidate is then divisible by
  a member of the list exactly when it is not prime, because every number from 2 on has a
  prime factor.
\<close>

lemma is_prime_iff: "is_prime p \<longleftrightarrow> 1 < p \<and> (\<forall>m. 2 \<le> m \<and> m < p \<longrightarrow> \<not> m dvd p)"
  by (auto simp: is_prime_def)

lemma is_prime_ge2: "is_prime p \<Longrightarrow> 2 \<le> p"
  by (simp add: is_prime_iff)

lemma prime_factor: "2 \<le> n \<Longrightarrow> \<exists>p. is_prime p \<and> p dvd n \<and> p \<le> n"
proof (induction "nat n" arbitrary: n rule: less_induct)
  case less
  show ?case
  proof (cases "is_prime n")
    case True
    then show ?thesis by auto
  next
    case False
    with less.prems obtain m where m: "2 \<le> m" "m < n" "m dvd n"
      by (auto simp: is_prime_iff)
    then have "nat m < nat n" by simp
    from less.hyps[OF this m(1)] obtain p where p: "is_prime p" "p dvd m" "p \<le> m" by blast
    from p(2) m(3) have "p dvd n" by (rule dvd_trans)
    moreover from p(3) m(2) have "p \<le> n" by simp
    ultimately show ?thesis using p(1) by blast
  qed
qed

lemma has_divisor_iff: "has_divisor n ps \<longleftrightarrow> (\<exists>p \<in> set ps. p dvd n)"
  by (induction ps) auto

lemma set_primes_between: "set (primes_between lo hi) = {p. lo \<le> p \<and> p \<le> hi \<and> is_prime p}"
  by (auto simp: primes_between_def)

lemma has_divisor_primes:
  assumes "2 \<le> n"
  shows "has_divisor n (primes_between 2 (n - 1)) \<longleftrightarrow> \<not> is_prime n"
proof
  assume "has_divisor n (primes_between 2 (n - 1))"
  then obtain p where "2 \<le> p" "p \<le> n - 1" "p dvd n"
    by (auto simp: has_divisor_iff set_primes_between)
  then have "2 \<le> p \<and> p < n \<and> p dvd n" by simp
  then show "\<not> is_prime n" unfolding is_prime_iff by blast
next
  assume "\<not> is_prime n"
  with assms obtain m where m: "2 \<le> m" "m < n" "m dvd n"
    by (auto simp: is_prime_iff)
  from prime_factor[OF m(1)] obtain p where p: "is_prime p" "p dvd m" "p \<le> m" by blast
  from p(2) m(3) have "p dvd n" by (rule dvd_trans)
  moreover have "2 \<le> p" using p(1) by (rule is_prime_ge2)
  moreover have "p \<le> n - 1" using p(3) m(2) by simp
  ultimately have "p \<in> set (primes_between 2 (n - 1)) \<and> p dvd n"
    using p(1) by (simp add: set_primes_between)
  then show "has_divisor n (primes_between 2 (n - 1))"
    unfolding has_divisor_iff by blast
qed

lemma primes_between_step:
  "lo \<le> hi + 1 \<Longrightarrow>
   primes_between lo (hi + 1) = primes_between lo hi @ (if is_prime (hi + 1) then [hi + 1] else [])"
  by (simp add: primes_between_def upto_rec2)

lemma even_not_prime: "4 \<le> n \<Longrightarrow> even n \<Longrightarrow> \<not> is_prime n"
proof -
  assume "4 \<le> n" "even n"
  then have "2 \<le> (2::int) \<and> 2 < n \<and> 2 dvd n" by simp
  then show "\<not> is_prime n" unfolding is_prime_iff by blast
qed

lemma sieve_loop_eq:
  assumes "3 \<le> n" "odd n" "n \<le> stop + 2" "2 \<le> stop"
  shows "sieve_loop n stop (primes_between 2 (n - 1)) = Some (primes_between 2 stop)"
  using assms
proof (induction "nat (stop + 2 - n)" arbitrary: n rule: less_induct)
  case less
  show ?case
  proof (cases "n < stop + 1")
    case False
    have "primes_between 2 (n - 1) = primes_between 2 stop"
    proof (cases "n = stop + 1")
      case True
      then show ?thesis by simp
    next
      case False
      with \<open>\<not> n < stop + 1\<close> less.prems have n: "n = stop + 2" by simp
      with less.prems have os: "odd stop" by simp
      then have "stop \<noteq> 2" by auto
      with less.prems os have "4 \<le> stop + 1" "even (stop + 1)" by simp_all
      then have "\<not> is_prime (stop + 1)" by (rule even_not_prime)
      then have pb: "primes_between 2 (stop + 1) = primes_between 2 stop"
        using less.prems by (simp add: primes_between_step)
      from n have nm: "n - 1 = stop + 1" by simp
      show ?thesis unfolding nm by (rule pb)
    qed
    with False show ?thesis by (subst sieve_loop.simps) simp
  next
    case True
    have n2: "2 \<le> n" using less.prems by simp
    have a: "(if has_divisor n (primes_between 2 (n - 1)) then primes_between 2 (n - 1)
              else primes_between 2 (n - 1) @ [n]) = primes_between 2 n"
      using primes_between_step[of 2 "n - 1"] n2 by (simp add: has_divisor_primes)
    have "4 \<le> n + 1" "even (n + 1)" using less.prems by auto
    then have "\<not> is_prime (n + 1)" by (rule even_not_prime)
    then have b: "primes_between 2 (n + 1) = primes_between 2 n"
      using n2 by (simp add: primes_between_step)
    have m: "nat (stop + 2 - (n + 2)) < nat (stop + 2 - n)" using True by simp
    have ih: "sieve_loop (n + 2) stop (primes_between 2 (n + 2 - 1)) = Some (primes_between 2 stop)"
      using less.prems True by (intro less.hyps[OF m]) auto
    have "n + 2 - 1 = n + 1" by simp
    with ih have "sieve_loop (n + 2) stop (primes_between 2 (n + 1)) = Some (primes_between 2 stop)"
      by (simp only:)
    then have c: "sieve_loop (n + 2) stop (primes_between 2 n) = Some (primes_between 2 stop)"
      by (simp only: b)
    show ?thesis
      by (subst sieve_loop.simps) (simp only: True a c if_True)
  qed
qed

lemma primes_between_2_2: "primes_between 2 2 = [2]"
  by (simp add: primes_between_def is_prime_def)

lemma sieve_loop_from_3:
  "sieve_loop 3 stop [2] = Some (if 2 \<le> stop then primes_between 2 stop else [2])"
proof (cases "2 \<le> stop")
  case True
  have "sieve_loop 3 stop (primes_between 2 (3 - 1)) = Some (primes_between 2 stop)"
    using True by (intro sieve_loop_eq) auto
  with True show ?thesis by (simp add: primes_between_2_2)
next
  case False
  then show ?thesis by (subst sieve_loop.simps) simp
qed


lemma trim_front_eq: "trim_front start ps = Some (dropWhile (\<lambda>p. p < start) ps)"
proof (induction ps)
  case Nil
  show ?case by (subst trim_front.simps) simp
next
  case (Cons p ps)
  show ?case
  proof (cases "p < start")
    case True
    then have "trim_front start (p # ps) = trim_front start ps"
      by (subst trim_front.simps) simp
    with Cons True show ?thesis by simp
  next
    case False
    then show ?thesis by (subst trim_front.simps) simp
  qed
qed

lemma dropWhile_filter_upto:
  "dropWhile (\<lambda>p. p < start) (filter P [lo..hi]) = filter P [max lo start..hi]"
proof (induction "nat (hi + 1 - lo)" arbitrary: lo rule: less_induct)
  case less
  show ?case
  proof (cases "lo \<le> hi")
    case False
    then show ?thesis by simp
  next
    case True
    then have u: "[lo..hi] = lo # [lo + 1..hi]" by (simp add: upto_rec1)
    show ?thesis
    proof (cases "lo < start")
      case lt: True
      have m: "nat (hi + 1 - (lo + 1)) < nat (hi + 1 - lo)" using True by simp
      have ih: "dropWhile (\<lambda>p. p < start) (filter P [lo + 1..hi]) = filter P [max (lo + 1) start..hi]"
        by (rule less.hyps[OF m])
      have mx: "max (lo + 1) start = max lo start" using lt by simp
      have "dropWhile (\<lambda>p. p < start) (filter P [lo..hi]) =
            dropWhile (\<lambda>p. p < start) (filter P [lo + 1..hi])"
        unfolding u using lt by simp
      with ih mx show ?thesis by simp
    next
      case ge: False
      then have mx: "max lo start = lo" by simp
      have "\<forall>p \<in> set (filter P [lo..hi]). \<not> p < start" using ge by auto
      then have "dropWhile (\<lambda>p. p < start) (filter P [lo..hi]) = filter P [lo..hi]"
        by (metis dropWhile_eq_self_iff list.set_sel(1))
      with mx show ?thesis by simp
    qed
  qed
qed

lemma get_primes_eq:
  "get_primes start stop =
     Some (if start \<ge> stop then []
           else if 2 \<le> stop then primes_between (max 2 start) stop else [2])"
proof (cases "start \<ge> stop")
  case True
  then show ?thesis by (simp add: get_primes_def)
next
  case False
  show ?thesis
  proof (cases "2 \<le> stop")
    case True
    have "dropWhile (\<lambda>p. p < start) (primes_between 2 stop) = primes_between (max 2 start) stop"
      unfolding primes_between_def by (rule dropWhile_filter_upto)
    with True False show ?thesis
      by (simp add: get_primes_def sieve_loop_from_3 trim_front_eq)
  next
    case s: False
    with False have "\<not> 2 < start" by simp
    with s False show ?thesis
      by (simp add: get_primes_def sieve_loop_from_3 trim_front_eq)
  qed
qed

text \<open>
  Claim C6 says that for \<open>start < stop\<close> the prime finder returns exactly the primes
  between \<open>start\<close> and \<open>stop\<close>. The list of primes is seeded with 2 whatever \<open>stop\<close> is,
  so for \<open>stop < 2\<close> the result holds the prime 2, which is above \<open>stop\<close>: the call
  \<open>get_primes 0 1\<close> returns \<open>[2]\<close>. For \<open>stop \<ge> 2\<close> the claim holds (lemma
  \<open>get_primes_in_range\<close>).
\<close>

theorem get_primes_0_1: "get_primes 0 1 = Some [2] \<and> \<not> (2::int) \<le> 1"
  by (simp add: get_primes_eq)

lemma get_primes_in_range:
  assumes "start < stop" "2 \<le> stop"
  shows "\<exists>ps. get_primes start stop = Some ps \<and> sorted_wrt (<) ps \<and>
              set ps = {p. is_prime p \<and> start \<le> p \<and> p \<le> stop}"
proof -
  let ?ps = "primes_between (max 2 start) stop"
  have g: "get_primes start stop = Some ?ps" using assms by (simp add: get_primes_eq)
  have "sorted ?ps" by (simp add: primes_between_def sorted_wrt_filter)
  moreover have "distinct ?ps" by (simp add: primes_between_def)
  ultimately have s: "sorted_wrt (<) ?ps" by (simp add: strict_sorted_iff)
  have "set ?ps = {p. is_prime p \<and> start \<le> p \<and> p \<le> stop}"
    using is_prime_ge2 by (auto simp: set_primes_between)
  with g s show ?thesis by blast
qed

section \<open>The key-pair generator\<close>

text \<open>
  Each of the three search loops returns: either it is exhausted and raises
  \<open>AssertionError\<close>, or it yields a value with the property it was searched for. The two
  exponent loops are measured by the distance to the bound, the prime-pair loop by the
  length of the pool, which \<open>remove\<close> shortens in every round.
\<close>

lemma find_e_cases:
  "find_e e0 stop = Some (Inl AssertionError) \<or>
   (\<exists>e. find_e e0 stop = Some (Inr e) \<and> e0 \<le> e \<and> e < stop \<and> even (e - e0) \<and>
        are_relatively_prime e stop = Some True)"
proof (induction "nat (stop - e0)" arbitrary: e0 rule: less_induct)
  case less
  show ?case
  proof (cases "e0 < stop")
    case False
    then have "find_e e0 stop = Some (Inl AssertionError)"
      by (subst find_e.simps) simp
    then show ?thesis by simp
  next
    case True
    obtain r where r: "are_relatively_prime e0 stop = Some r"
      by (simp add: are_relatively_prime_eq)
    show ?thesis
    proof (cases r)
      case True
      with r \<open>e0 < stop\<close> have "find_e e0 stop = Some (Inr e0)"
        by (subst find_e.simps) simp
      with True r \<open>e0 < stop\<close> show ?thesis by simp
    next
      case False
      with r \<open>e0 < stop\<close> have step: "find_e e0 stop = find_e (e0 + 2) stop"
        by (subst find_e.simps) simp
      have m: "nat (stop - (e0 + 2)) < nat (stop - e0)" using \<open>e0 < stop\<close> by simp
      from less.hyps[OF m] show ?thesis
      proof
        assume "find_e (e0 + 2) stop = Some (Inl AssertionError)"
        with step show ?thesis by simp
      next
        assume "\<exists>e. find_e (e0 + 2) stop = Some (Inr e) \<and> e0 + 2 \<le> e \<and> e < stop \<and>
                  even (e - (e0 + 2)) \<and> are_relatively_prime e stop = Some True"
        then obtain e where e: "find_e (e0 + 2) stop = Some (Inr e)" "e0 + 2 \<le> e" "e < stop"
          "even (e - (e0 + 2))" "are_relatively_prime e stop = Some True" by blast
        from e(4) have "even (e - e0)" by simp
        with e step show ?thesis by simp
      qed
    qed
  qed
qed

lemma find_d_cases:
  "find_d d0 stop e = Some (Inl AssertionError) \<or>
   (\<exists>d. find_d d0 stop e = Some (Inr d) \<and> d0 \<le> d \<and> d < stop \<and> even (d - d0) \<and>
        d * e mod stop = 1)"
proof (induction "nat (stop - d0)" arbitrary: d0 rule: less_induct)
  case less
  show ?case
  proof (cases "d0 < stop")
    case False
    then have "find_d d0 stop e = Some (Inl AssertionError)"
      by (subst find_d.simps) simp
    then show ?thesis by simp
  next
    case True
    show ?thesis
    proof (cases "d0 * e mod stop = 1")
      case hit: True
      with True have "find_d d0 stop e = Some (Inr d0)"
        by (subst find_d.simps) simp
      with hit True show ?thesis by simp
    next
      case False
      with True have step: "find_d d0 stop e = find_d (d0 + 2) stop e"
        by (subst find_d.simps) simp
      have m: "nat (stop - (d0 + 2)) < nat (stop - d0)" using True by simp
      from less.hyps[OF m] show ?thesis
      proof
        assume "find_d (d0 + 2) stop e = Some (Inl AssertionError)"
        with step show ?thesis by simp
      next
        assume "\<exists>d. find_d (d0 + 2) stop e = Some (Inr d) \<and> d0 + 2 \<le> d \<and> d < stop \<and>
                  even (d - (d0 + 2)) \<and> d * e mod stop = 1"
        then obtain d where d: "find_d (d0 + 2) stop e = Some (Inr d)" "d0 + 2 \<le> d" "d < stop"
          "even (d - (d0 + 2))" "d * e mod stop = 1" by blast
        from d(4) have "even (d - d0)" by simp
        with d step show ?thesis by simp
      qed
    qed
  qed
qed

lemma choice_in_set: "xs \<noteq> [] \<Longrightarrow> choice r xs \<in> set xs"
  by (simp add: choice_def)

lemma pick_pq_cases:
  "pick_pq rnd i lo hi primes = Some (Inl AssertionError) \<or>
   (\<exists>p q. pick_pq rnd i lo hi primes = Some (Inr (p, q)) \<and> p \<in> set primes \<and>
          q \<in> set (remove1 p primes) \<and> lo \<le> p * q \<and> p * q \<le> hi)"
proof (induction "length primes" arbitrary: i primes rule: less_induct)
  case less
  show ?case
  proof (cases "primes = []")
    case True
    then have "pick_pq rnd i lo hi primes = Some (Inl AssertionError)"
      by (subst pick_pq.simps) simp
    then show ?thesis by simp
  next
    case False
    define p where "p = choice (rnd i) primes"
    define primes' where "primes' = remove1 p primes"
    define qc where "qc = filter (\<lambda>q. lo \<le> p * q \<and> p * q \<le> hi) primes'"
    have pin: "p \<in> set primes" using False by (simp add: p_def choice_in_set)
    have unfold: "pick_pq rnd i lo hi primes =
        (if qc \<noteq> [] then Some (Inr (p, choice (rnd (i + 1)) qc))
         else pick_pq rnd (i + 1) lo hi primes')"
      using False by (subst pick_pq.simps) (simp add: Let_def p_def primes'_def qc_def)
    show ?thesis
    proof (cases "qc = []")
      case found: False
      define q where "q = choice (rnd (i + 1)) qc"
      have "q \<in> set qc" using found by (simp add: q_def choice_in_set)
      then have q: "q \<in> set primes'" "lo \<le> p * q" "p * q \<le> hi" by (simp_all add: qc_def)
      have "pick_pq rnd i lo hi primes = Some (Inr (p, q))"
        using unfold found by (simp add: q_def)
      with pin q show ?thesis unfolding primes'_def by blast
    next
      case True
      with unfold have step: "pick_pq rnd i lo hi primes = pick_pq rnd (i + 1) lo hi primes'"
        by simp
      have m: "length primes' < length primes"
        using pin by (simp add: primes'_def length_remove1) (use False in \<open>cases primes; simp\<close>)
      from less.hyps[OF m, of "i + 1"] show ?thesis
      proof
        assume "pick_pq rnd (i + 1) lo hi primes' = Some (Inl AssertionError)"
        with step show ?thesis by simp
      next
        assume "\<exists>p q. pick_pq rnd (i + 1) lo hi primes' = Some (Inr (p, q)) \<and> p \<in> set primes' \<and>
                  q \<in> set (remove1 p primes') \<and> lo \<le> p * q \<and> p * q \<le> hi"
        then obtain a b where ab: "pick_pq rnd (i + 1) lo hi primes' = Some (Inr (a, b))"
          "a \<in> set primes'" "b \<in> set (remove1 a primes')" "lo \<le> a * b" "a * b \<le> hi" by blast
        have ain: "a \<in> set primes"
          using ab(2) set_remove1_subset[of p primes] unfolding primes'_def by blast
        have "b \<in> set (remove1 p (remove1 a primes))"
          using ab(3) unfolding primes'_def by (simp only: remove1_commute)
        then have bin: "b \<in> set (remove1 a primes)"
          using set_remove1_subset[of p "remove1 a primes"] by blast
        have "pick_pq rnd i lo hi primes = Some (Inr (a, b))" using step ab(1) by simp
        with ain bin ab(4,5) show ?thesis by blast
      qed
    qed
  qed
qed

text \<open>
  The generator as a whole. For a length of at least 4 the search range starts at 2 or
  above, so the pool is the list of the primes of the range; the three loops then give
  the three possible outcomes of a call.
\<close>

lemma search_range:
  assumes "4 \<le> len"
  shows "(2::int) \<le> 2 ^ nat (len div 2 - 1)"
    and "(2::int) ^ nat (len div 2 + 1) = 4 * 2 ^ nat (len div 2 - 1)"
proof -
  have k: "1 \<le> nat (len div 2 - 1)" using assms by simp
  have "(2::int) ^ 1 \<le> 2 ^ nat (len div 2 - 1)"
    using k by (intro power_increasing) simp_all
  then show "(2::int) \<le> 2 ^ nat (len div 2 - 1)" by simp
  have "nat (len div 2 + 1) = nat (len div 2 - 1) + 2" using assms by simp
  then show "(2::int) ^ nat (len div 2 + 1) = 4 * 2 ^ nat (len div 2 - 1)"
    by (simp add: power_add)
qed

lemma get_primes_from_2:
  "2 \<le> start \<Longrightarrow> start < stop \<Longrightarrow> get_primes start stop = Some (primes_between start stop)"
  by (simp add: get_primes_eq)

lemma get_primes_in_generator:
  assumes "4 \<le> len"
  shows "get_primes (2 ^ nat (len div 2 - 1)) (2 ^ nat (len div 2 + 1)) =
         Some (primes_between (2 ^ nat (len div 2 - 1)) (2 ^ nat (len div 2 + 1)))"
proof -
  let ?start = "(2::int) ^ nat (len div 2 - 1)"
  let ?stop = "(2::int) ^ nat (len div 2 + 1)"
  have s: "2 \<le> ?start" and e: "?stop = 4 * ?start" using assms by (rule search_range)+
  from s e have "?start < ?stop" by simp
  with s show ?thesis by (rule get_primes_from_2)
qed

lemma make_key_pair_unfold:
  assumes "4 \<le> len"
  shows "make_key_pair rnd len =
     (case pick_pq rnd 0 (2 ^ nat (len - 1)) (2 ^ nat len - 1)
             (primes_between (2 ^ nat (len div 2 - 1)) (2 ^ nat (len div 2 + 1))) of
        None \<Rightarrow> None
      | Some (Inl err) \<Rightarrow> Some (Inl err)
      | Some (Inr (p, q)) \<Rightarrow>
          (case find_e 3 ((p - 1) * (q - 1)) of
             None \<Rightarrow> None
           | Some (Inl err) \<Rightarrow> Some (Inl err)
           | Some (Inr e) \<Rightarrow>
               (case find_d 3 ((p - 1) * (q - 1)) e of
                  None \<Rightarrow> None
                | Some (Inl err) \<Rightarrow> Some (Inl err)
                | Some (Inr d) \<Rightarrow> Some (Inr (PublicKey (p * q) e, PrivateKey (p * q) d)))))"
proof -
  have "\<not> len < 4" using assms by simp
  then show ?thesis
    unfolding make_key_pair_def Let_def get_primes_in_generator[OF assms]
    by (simp only: if_False option.case)
qed


lemma primes_between_distinct: "distinct (primes_between lo hi)"
  by (simp add: primes_between_def)

lemma primes_between_prime: "p \<in> set (primes_between lo hi) \<Longrightarrow> is_prime p"
  by (simp add: set_primes_between)

lemma odd_from_3: "even (e - 3) \<Longrightarrow> odd (e::int)"
  by presburger

lemma make_key_pair_cases:
  "(len < 4 \<and> make_key_pair rnd len = Some (Inl ValueError)) \<or>
   (4 \<le> len \<and> make_key_pair rnd len = Some (Inl AssertionError)) \<or>
   (4 \<le> len \<and>
    (\<exists>p q e d.
        make_key_pair rnd len = Some (Inr (PublicKey (p * q) e, PrivateKey (p * q) d)) \<and>
        is_prime p \<and> is_prime q \<and> p \<noteq> q \<and>
        2 ^ nat (len - 1) \<le> p * q \<and> p * q \<le> 2 ^ nat len - 1 \<and>
        3 \<le> e \<and> e < (p - 1) * (q - 1) \<and> odd e \<and>
        3 \<le> d \<and> d < (p - 1) * (q - 1) \<and> odd d \<and>
        d * e mod ((p - 1) * (q - 1)) = 1 \<and>
        are_relatively_prime e ((p - 1) * (q - 1)) = Some True))"
proof (cases "len < 4")
  case True
  then show ?thesis by (simp add: make_key_pair_def)
next
  case False
  then have len4: "4 \<le> len" by simp
  note unfold = make_key_pair_unfold[OF len4, of rnd]
  let ?primes = "primes_between (2 ^ nat (len div 2 - 1)) (2 ^ nat (len div 2 + 1))"
  from pick_pq_cases[of rnd 0 "2 ^ nat (len - 1)" "2 ^ nat len - 1" ?primes]
  show ?thesis
  proof
    assume pk: "pick_pq rnd 0 (2 ^ nat (len - 1)) (2 ^ nat len - 1) ?primes = Some (Inl AssertionError)"
    have "make_key_pair rnd len = Some (Inl AssertionError)"
      by (simp only: unfold pk option.case sum.case)
    with len4 show ?thesis by simp
  next
    assume "\<exists>p q. pick_pq rnd 0 (2 ^ nat (len - 1)) (2 ^ nat len - 1) ?primes = Some (Inr (p, q)) \<and>
              p \<in> set ?primes \<and> q \<in> set (remove1 p ?primes) \<and>
              2 ^ nat (len - 1) \<le> p * q \<and> p * q \<le> 2 ^ nat len - 1"
    then obtain p q where
      pk: "pick_pq rnd 0 (2 ^ nat (len - 1)) (2 ^ nat len - 1) ?primes = Some (Inr (p, q))"
      and pin: "p \<in> set ?primes" and qin: "q \<in> set (remove1 p ?primes)"
      and lo: "2 ^ nat (len - 1) \<le> p * q" and hi: "p * q \<le> 2 ^ nat len - 1" by blast
    have pp: "is_prime p" using pin by (rule primes_between_prime)
    have "set (remove1 p ?primes) = set ?primes - {p}"
      using primes_between_distinct by (rule set_remove1_eq)
    with qin have qin': "q \<in> set ?primes" and ne: "p \<noteq> q" by auto
    have pq: "is_prime q" using qin' by (rule primes_between_prime)
    let ?phi = "(p - 1) * (q - 1)"
    from find_e_cases[of 3 ?phi] show ?thesis
    proof
      assume fe: "find_e 3 ?phi = Some (Inl AssertionError)"
      have "make_key_pair rnd len = Some (Inl AssertionError)"
        by (simp only: unfold pk fe option.case sum.case prod.case)
      with len4 show ?thesis by simp
    next
      assume "\<exists>e. find_e 3 ?phi = Some (Inr e) \<and> 3 \<le> e \<and> e < ?phi \<and> even (e - 3) \<and>
                are_relatively_prime e ?phi = Some True"
      then obtain e where fe: "find_e 3 ?phi = Some (Inr e)" and e3: "3 \<le> e" and ephi: "e < ?phi"
        and ev: "even (e - 3)" and cop: "are_relatively_prime e ?phi = Some True" by blast
      have eodd: "odd e" using ev by (rule odd_from_3)
      from find_d_cases[of 3 ?phi e] show ?thesis
      proof
        assume fd: "find_d 3 ?phi e = Some (Inl AssertionError)"
        have "make_key_pair rnd len = Some (Inl AssertionError)"
          by (simp only: unfold pk fe fd option.case sum.case prod.case)
        with len4 show ?thesis by simp
      next
        assume "\<exists>d. find_d 3 ?phi e = Some (Inr d) \<and> 3 \<le> d \<and> d < ?phi \<and> even (d - 3) \<and>
                  d * e mod ?phi = 1"
        then obtain d where fd: "find_d 3 ?phi e = Some (Inr d)" and d3: "3 \<le> d"
          and dphi: "d < ?phi" and dv: "even (d - 3)" and inv: "d * e mod ?phi = 1" by blast
        have dodd: "odd d" using dv by (rule odd_from_3)
        have "make_key_pair rnd len = Some (Inr (PublicKey (p * q) e, PrivateKey (p * q) d))"
          by (simp only: unfold pk fe fd option.case sum.case prod.case)
        with len4 pp pq ne lo hi e3 ephi eodd d3 dphi dodd inv cop show ?thesis by blast
      qed
    qed
  qed
qed


lemma bitlen_eqI:
  assumes L: "1 \<le> L" and lo: "2 ^ nat (L - 1) \<le> n" and hi: "n < 2 ^ nat L"
  shows "bitlen n = L"
proof -
  have npos: "0 < n" using lo by (rule less_le_trans[rotated]) simp
  define B where "B = bitlen n"
  have b: "2 ^ nat (B - 1) \<le> n" "n < 2 ^ nat B"
    using bitlen_bounds[OF npos] by (simp_all add: B_def)
  have B1: "1 \<le> B"
    using npos bitlen_eq_zero_iff[of n] bitlen_nonneg[of n] unfolding B_def by linarith
  have "(2::int) ^ nat (B - 1) < 2 ^ nat L" using b(1) hi by (rule le_less_trans)
  then have "nat (B - 1) < nat L" by simp
  then have 1: "B \<le> L" using B1 L by linarith
  have "(2::int) ^ nat (L - 1) < 2 ^ nat B" using lo b(2) by (rule le_less_trans)
  then have "nat (L - 1) < nat B" by simp
  then have 2: "L \<le> B" using B1 L by linarith
  from 1 2 show ?thesis by (simp add: B_def)
qed

lemma run_4: "make_key_pair (\<lambda>_. 0) 4 = Some (Inr (PublicKey 10 3, PrivateKey 10 3))"
  by code_simp

lemma run_3: "make_key_pair (\<lambda>_. 0) 3 = Some (Inl ValueError)"
  by (simp add: make_key_pair_def)

text \<open>
  Claim C5. \<open>make_key_pair\<close> raises \<open>ValueError\<close> exactly when the requested length is below
  4; the check is the first test of the function, and from length 4 on the call either
  raises \<open>AssertionError\<close> or returns a key pair.
\<close>

theorem make_key_pair_invalid_parameter:
  "(make_key_pair rnd len = Some (Inl ValueError) \<longleftrightarrow> len < 4) \<and>
   (4 \<le> len \<longrightarrow>
      make_key_pair rnd len = Some (Inl AssertionError) \<or>
      (\<exists>pub priv. make_key_pair rnd len = Some (Inr (pub, priv))))"
  using make_key_pair_cases[of len rnd] by auto

theorem make_key_pair_invalid_parameter_witness:
  "make_key_pair (\<lambda>_. 0) 3 = Some (Inl ValueError) \<and> (3::int) < 4 \<and> (4::int) \<le> 4 \<and>
   make_key_pair (\<lambda>_. 0) 4 \<noteq> Some (Inl ValueError) \<and>
   (\<exists>pub priv. make_key_pair (\<lambda>_. 0) 4 = Some (Inr (pub, priv)))"
  using make_key_pair_invalid_parameter[of "\<lambda>_. 0" 3]
    make_key_pair_invalid_parameter[of "\<lambda>_. 0" 4] run_4
  by simp

text \<open>
  Claim C9. Every call of \<open>get_primes\<close>, \<open>are_relatively_prime\<close> and \<open>make_key_pair\<close>
  returns, for all integer arguments and every random tape: no loop runs forever, and
  \<open>make_key_pair\<close> ends with a key pair or with one of its two exceptions.
\<close>

theorem all_calls_return:
  "(\<exists>primes. get_primes start stop = Some primes) \<and>
   (\<exists>r. are_relatively_prime a b = Some r) \<and>
   (make_key_pair rnd len = Some (Inl ValueError) \<or>
    make_key_pair rnd len = Some (Inl AssertionError) \<or>
    (\<exists>pub priv. make_key_pair rnd len = Some (Inr (pub, priv))))"
proof (intro conjI)
  show "\<exists>primes. get_primes start stop = Some primes" by (simp add: get_primes_eq)
  show "\<exists>r. are_relatively_prime a b = Some r" by (simp add: are_relatively_prime_eq)
  show "make_key_pair rnd len = Some (Inl ValueError) \<or>
    make_key_pair rnd len = Some (Inl AssertionError) \<or>
    (\<exists>pub priv. make_key_pair rnd len = Some (Inr (pub, priv)))"
    using make_key_pair_cases[of len rnd] by auto
qed

text \<open>
  Claim C2. Whenever \<open>make_key_pair\<close> returns a key pair for the length \<open>len\<close>, the two
  keys hold the same modulus, which lies between \<open>2 ^ (len - 1)\<close> and \<open>2 ^ len - 1\<close>, so
  that its bit length is \<open>len\<close>.
\<close>

theorem modulus_bit_length:
  assumes "make_key_pair rnd len = Some (Inr (pub, priv))"
  shows "4 \<le> len \<and> 2 ^ nat (len - 1) \<le> pub_n pub \<and> pub_n pub \<le> 2 ^ nat len - 1 \<and>
         bitlen (pub_n pub) = len \<and> priv_n priv = pub_n pub"
proof -
  from make_key_pair_cases[of len rnd] assms obtain p q e d where
    len4: "4 \<le> len"
    and r: "make_key_pair rnd len = Some (Inr (PublicKey (p * q) e, PrivateKey (p * q) d))"
    and lo: "2 ^ nat (len - 1) \<le> p * q" and hi: "p * q \<le> 2 ^ nat len - 1"
    by auto
  from r assms have pub: "pub = PublicKey (p * q) e" and priv: "priv = PrivateKey (p * q) d"
    by simp_all
  have "p * q < 2 ^ nat len" using hi by simp
  with lo len4 have "bitlen (p * q) = len" by (intro bitlen_eqI) simp_all
  with len4 lo hi pub priv show ?thesis by simp
qed

theorem modulus_bit_length_witness:
  "make_key_pair (\<lambda>_. 0) 4 = Some (Inr (PublicKey 10 3, PrivateKey 10 3)) \<and>
   (2::int) ^ nat (4 - 1) \<le> 10 \<and> (10::int) \<le> 2 ^ nat 4 - 1 \<and> bitlen 10 = 4"
  using modulus_bit_length[OF run_4] run_4 by simp

end
